theory Spec2Isabelle
  imports Main "HOL-Library.Sublist" "HOL-Library.AList" "HOL-Library.Monad_Syntax"
begin

section \<open>Strings and the string operations of the host language\<close>

text \<open>
  A source string is a sequence of UTF-16 code units. It is modelled as a \<^typ>\<open>string\<close>,
  each \<^typ>\<open>char\<close> standing for the code unit of the same number, so the model covers the
  texts whose code units are below 256. The regular-expression class \<^verbatim>\<open>\w\<close> is
  \<^verbatim>\<open>[A-Za-z0-9_]\<close>; the class \<^verbatim>\<open>\s\<close> has, below 256, the members
  tab, line feed, vertical tab, form feed, carriage return, space and no-break space.
\<close>

definition isWord :: "char \<Rightarrow> bool" where
  "isWord c = (c \<in> set (''abcdefghijklmnopqrstuvwxyz'' @ ''ABCDEFGHIJKLMNOPQRSTUVWXYZ''
                          @ ''0123456789_''))"

definition isSpace :: "char \<Rightarrow> bool" where
  "isSpace c = (c \<in> set [CHR 0x09, CHR 0x0A, CHR 0x0B, CHR 0x0C, CHR 0x0D, CHR '' '', CHR 0xA0])"

text \<open>
  \<^verbatim>\<open>s.split(sep)\<close>: the pieces between the occurrences of \<open>sep\<close>, found from left to
  right without overlap; with the empty separator, the code units one by one.
\<close>

fun str_split :: "string \<Rightarrow> string \<Rightarrow> string list" where
  "str_split [] s = map (\<lambda>c. [c]) s"
| "str_split (a # sep) [] = [[]]"
| "str_split (a # sep) (c # cs) =
     (if prefix (a # sep) (c # cs) then [] # str_split (a # sep) (drop (length sep) cs)
      else (case str_split (a # sep) cs of
              [] \<Rightarrow> [[c]]
            | p # ps \<Rightarrow> (c # p) # ps))"

text \<open>\<^verbatim>\<open>xs.join(sep)\<close>.\<close>

fun str_join :: "string \<Rightarrow> string list \<Rightarrow> string" where
  "str_join sep [] = []"
| "str_join sep [x] = x"
| "str_join sep (x # y # ys) = x @ sep @ str_join sep (y # ys)"

text \<open>\<^verbatim>\<open>s.trim()\<close>, \<^verbatim>\<open>s.endsWith(t)\<close>, \<^verbatim>\<open>s.startsWith(t)\<close>.\<close>

definition trim :: "string \<Rightarrow> string" where
  "trim s = rev (dropWhile isSpace (rev (dropWhile isSpace s)))"

definition endsWith :: "string \<Rightarrow> string \<Rightarrow> bool" where
  "endsWith s t = suffix t s"

definition startsWith :: "string \<Rightarrow> string \<Rightarrow> bool" where
  "startsWith s t = prefix t s"

section \<open>Regular expressions as scanners\<close>

text \<open>
  The four patterns of the source are built from greedy runs of one character class, each
  followed by a character outside that class (or by nothing). Giving back characters of a
  run can therefore never make a later part match, and the backtracking matcher accepts at
  a start position exactly when the scan below does, with the same groups.

  \<open>wordRun\<close> is \<^verbatim>\<open>\w+\<close>: the longest run of word characters, which must not be empty,
  and the text after it. \<open>spaces\<close> is \<^verbatim>\<open>\s*\<close>. \<open>lit c\<close> is the literal character \<open>c\<close>.
\<close>

definition wordRun :: "string \<Rightarrow> (string \<times> string) option" where
  "wordRun s = (if takeWhile isWord s = [] then None
                else Some (takeWhile isWord s, dropWhile isWord s))"

definition spaces :: "string \<Rightarrow> string" where
  "spaces s = dropWhile isSpace s"

fun lit :: "char \<Rightarrow> string \<Rightarrow> string option" where
  "lit c [] = None"
| "lit c (x # xs) = (if x = c then Some xs else None)"

text \<open>
  A pattern without the anchor \<^verbatim>\<open>^\<close> is tried at every start position from the left, the
  end of the text included, and the first position where it matches gives the result.
\<close>

fun regexSearch :: "(string \<Rightarrow> 'a option) \<Rightarrow> string \<Rightarrow> 'a option" where
  "regexSearch m [] = m []"
| "regexSearch m (c # cs) =
     (case m (c # cs) of Some r \<Rightarrow> Some r | None \<Rightarrow> regexSearch m cs)"

text \<open>\<^verbatim>\<open>(?:,\w+)*\<close>: the text matched and the text after it.\<close>

function commaGroups :: "string \<Rightarrow> string \<times> string" where
  "commaGroups [] = ([], [])"
| "commaGroups (c # cs) =
     (if c = CHR '','' \<and> takeWhile isWord cs \<noteq> []
      then (case commaGroups (dropWhile isWord cs) of
              (g, r) \<Rightarrow> (c # takeWhile isWord cs @ g, r))
      else ([], c # cs))"
  by pat_completeness auto
termination
  by (relation "measure length") (auto simp: length_dropWhile_le less_Suc_eq_le)

text \<open>
  \<^verbatim>\<open>/^(\w+:\w+(?:,\w+)*)\s*=\s*(\w+)\s*>\s*(\w+)/\<close>, matched against one line: the three
  groups.
\<close>

definition declMatch :: "string \<Rightarrow> (string \<times> string \<times> string) option" where
  "declMatch line = do {
     (n, r1) \<leftarrow> wordRun line;
     r2 \<leftarrow> lit CHR '':'' r1;
     (t, r3) \<leftarrow> wordRun r2;
     (g, r4) \<leftarrow> Some (commaGroups r3);
     r5 \<leftarrow> lit CHR ''='' (spaces r4);
     (alias, r6) \<leftarrow> wordRun (spaces r5);
     r7 \<leftarrow> lit CHR ''>'' (spaces r6);
     (returnType, r8) \<leftarrow> wordRun (spaces r7);
     Some (n @ '':'' @ t @ g, alias, returnType)
   }"

text \<open>\<^verbatim>\<open>/^\s*using\s+/\<close>, as a test.\<close>

definition usingMatch :: "string \<Rightarrow> bool" where
  "usingMatch lineText =
     (prefix ''using'' (spaces lineText) \<and>
      (case drop 5 (spaces lineText) of [] \<Rightarrow> False | c # cs \<Rightarrow> isSpace c))"

text \<open>\<^verbatim>\<open>/(\w+)\.(\w*)$/\<close> at one start position: the two groups.\<close>

definition memberAt :: "string \<Rightarrow> (string \<times> string) option" where
  "memberAt s = do {
     (libName, r1) \<leftarrow> wordRun s;
     r2 \<leftarrow> lit CHR ''.'' r1;
     if dropWhile isWord r2 = [] then Some (libName, takeWhile isWord r2) else None
   }"

text \<open>\<^verbatim>\<open>/(\w+)\.(\w+)\(/\<close> at one start position: the two groups.\<close>

definition callAt :: "string \<Rightarrow> (string \<times> string) option" where
  "callAt s = do {
     (libName, r1) \<leftarrow> wordRun s;
     r2 \<leftarrow> lit CHR ''.'' r1;
     (funcName, r3) \<leftarrow> wordRun r2;
     r4 \<leftarrow> lit CHR ''('' r3;
     Some (libName, funcName)
   }"

section \<open>The registry and the descriptor loader\<close>

record LibFunction =
  name :: string
  argType :: string
  alias' :: string
  returnType :: string

text \<open>
  \<open>libFunctions\<close> is a \<^verbatim>\<open>Map\<close>, which keeps its keys in insertion order: an association
  list with distinct keys. \<^verbatim>\<open>set\<close> on a key already present replaces the value where it
  stands, and adds a new key at the end, which is \<^const>\<open>AList.update\<close>; \<^verbatim>\<open>get\<close> is
  \<^const>\<open>map_of\<close>, \<^verbatim>\<open>keys()\<close> is \<open>map fst\<close> and \<^verbatim>\<open>clear()\<close> leaves \<open>[]\<close>.
\<close>

type_synonym registry = "(string \<times> LibFunction list) list"

datatype fserror = ENOENT | ENOTDIR | EISDIR | EACCES

text \<open>
  What the loader reads of its surroundings: the folders of the workspace (their paths, or
  nothing when no folder is open) and the three synchronous file-system calls, two of which
  throw.
\<close>

record world =
  workspaceFolders :: "string list option"
  existsSync :: "string \<Rightarrow> bool"
  readdirSync :: "string \<Rightarrow> fserror + string list"
  readFileSync :: "string \<Rightarrow> fserror + string"

text \<open>
  \<^verbatim>\<open>path.join\<close> of a directory and one name; the result is only handed to the calls of
  \<^typ>\<open>world\<close>. \<^verbatim>\<open>path.basename(file, ext)\<close> of a directory entry, which has no separator
  in it: the name without the extension when it ends with it.
\<close>

definition pathJoin :: "string \<Rightarrow> string \<Rightarrow> string" where
  "pathJoin d f = d @ ''/'' @ f"

definition basename :: "string \<Rightarrow> string \<Rightarrow> string" where
  "basename file ext = (if endsWith file ext then take (length file - length ext) file else file)"

definition getMapDir :: "world \<Rightarrow> string option" where
  "getMapDir w =
     (case workspaceFolders w of
        None \<Rightarrow> None
      | Some [] \<Rightarrow> None
      | Some (folder # rest) \<Rightarrow> Some (pathJoin folder ''c_map''))"

text \<open>
  One line of the section: the match, the destructuring of the first group at the colon and
  the record that is pushed; \<open>None\<close> when the line does not match. \<open>str_split\<close> never
  returns the empty list, so the first case of the destructuring is never taken.
\<close>

definition lineRecord :: "string \<Rightarrow> LibFunction option" where
  "lineRecord line =
     (case declMatch line of
        None \<Rightarrow> None
      | Some (argString, al, ret) \<Rightarrow>
          (case str_split '':'' argString of
             [] \<Rightarrow> None
           | nm # args \<Rightarrow>
               Some \<lparr>name = nm, argType = str_join '':'' args, alias' = al, returnType = ret\<rparr>))"

text \<open>
  The inner loop of \<open>loadMapFiles\<close> over the lines of the section, with the array
  \<open>functions\<close> it pushes to.
\<close>

fun parseLines :: "string list \<Rightarrow> LibFunction list \<Rightarrow> LibFunction list" where
  "parseLines [] functions = functions"
| "parseLines (line # lines) functions =
     (case lineRecord line of
        None \<Rightarrow> parseLines lines functions
      | Some r \<Rightarrow> parseLines lines (functions @ [r]))"

text \<open>
  \<^verbatim>\<open>content.split("[functions]")[1]\<close>: the second piece, \<open>None\<close> for \<^verbatim>\<open>undefined\<close>.
\<close>

definition funcSection :: "string \<Rightarrow> string option" where
  "funcSection content =
     (case str_split ''[functions]'' content of
        p0 # p1 # ps \<Rightarrow> Some p1
      | _ \<Rightarrow> None)"

text \<open>
  What one descriptor file gives: \<open>None\<close> when the loop goes on to the next file without
  installing anything (the section is \<^verbatim>\<open>undefined\<close> or the empty string), the records
  otherwise.
\<close>

definition parseContent :: "string \<Rightarrow> LibFunction list option" where
  "parseContent content =
     (case funcSection content of
        None \<Rightarrow> None
      | Some sec \<Rightarrow> if sec = [] then None
                    else Some (parseLines (str_split [CHR 0x0A] sec) []))"

datatype outcome = Returned | Threw fserror

text \<open>The loop of \<open>loadMapFiles\<close> over the directory entries, on the registry as state.\<close>

fun loadLoop :: "world \<Rightarrow> string \<Rightarrow> string list \<Rightarrow> registry \<Rightarrow> outcome \<times> registry" where
  "loadLoop w mapDir [] libFunctions = (Returned, libFunctions)"
| "loadLoop w mapDir (file # files) libFunctions =
     (if \<not> endsWith file ''.map'' then loadLoop w mapDir files libFunctions
      else
        (case readFileSync w (pathJoin mapDir file) of
           Inl e \<Rightarrow> (Threw e, libFunctions)
         | Inr content \<Rightarrow>
             (case parseContent content of
                None \<Rightarrow> loadLoop w mapDir files libFunctions
              | Some functions \<Rightarrow>
                  loadLoop w mapDir files
                    (AList.update (basename file ''.map'') functions libFunctions))))"

definition loadMapFiles :: "world \<Rightarrow> registry \<Rightarrow> outcome \<times> registry" where
  "loadMapFiles w libFunctions =
     (case getMapDir w of
        None \<Rightarrow> (Returned, [])
      | Some mapDir \<Rightarrow>
          if \<not> existsSync w mapDir then (Returned, [])
          else (case readdirSync w mapDir of
                  Inl e \<Rightarrow> (Threw e, [])
                | Inr files \<Rightarrow> loadLoop w mapDir files []))"

section \<open>The providers\<close>

datatype CompletionItemKind = Module | Function | Keyword

record CompletionItem =
  label :: string
  kind :: CompletionItemKind
  detail :: string
  insertText :: "string option"
  documentation :: "string option"

text \<open>Library names after \<^verbatim>\<open>using\<close>; the position is not read.\<close>

definition libraryItem :: "string \<Rightarrow> CompletionItem" where
  "libraryItem nm =
     \<lparr>label = nm, kind = Module, detail = ''ARX Library'',
      insertText = None, documentation = None\<rparr>"

definition provideLibraryItems :: "registry \<Rightarrow> string \<Rightarrow> nat \<Rightarrow> CompletionItem list" where
  "provideLibraryItems libFunctions lineText character =
     (if usingMatch lineText then map libraryItem (map fst libFunctions) else [])"

text \<open>Functions of a library after \<^verbatim>\<open>library.\<close>; the position is not read.\<close>

definition functionItem :: "string \<Rightarrow> LibFunction \<Rightarrow> CompletionItem" where
  "functionItem libName fn =
     \<lparr>label = name fn, kind = Function, detail = libName @ '' library'',
      insertText = Some (name fn),
      documentation = Some (name fn @ ''('' @ argType fn @ '') -> '' @ returnType fn)\<rparr>"

definition provideFunctionItems :: "registry \<Rightarrow> string \<Rightarrow> nat \<Rightarrow> CompletionItem list" where
  "provideFunctionItems libFunctions lineText character =
     (case regexSearch memberAt lineText of
        None \<Rightarrow> []
      | Some (libName, pre) \<Rightarrow>
          (case map_of libFunctions libName of
             None \<Rightarrow> []
           | Some funcs \<Rightarrow>
               map (functionItem libName) (filter (\<lambda>fn. startsWith (name fn) pre) funcs)))"

record SignatureInformation =
  sigLabel :: string
  sigDocumentation :: string
  parameters :: "string list"

record SignatureHelp =
  signatures :: "SignatureInformation list"
  activeSignature :: int
  activeParameter :: int

text \<open>The call the cursor is in, as \<open>provideSignatureHelp\<close> finds it.\<close>

definition callSite :: "string \<Rightarrow> nat \<Rightarrow> (string \<times> string) option" where
  "callSite line character = regexSearch callAt (take character line)"

definition argsOf :: "LibFunction \<Rightarrow> string list" where
  "argsOf fn = (if argType fn \<noteq> [] then map trim (str_split '','' (argType fn)) else [])"

definition provideSignatureHelp :: "registry \<Rightarrow> string \<Rightarrow> nat \<Rightarrow> SignatureHelp option" where
  "provideSignatureHelp libFunctions line character =
     (let textUntilPos = take character line in
      case callSite line character of
        None \<Rightarrow> None
      | Some (libName, funcName) \<Rightarrow>
          (case map_of libFunctions libName of
             None \<Rightarrow> None
           | Some funcs \<Rightarrow>
               (case find (\<lambda>f. name f = funcName) funcs of
                  None \<Rightarrow> None
                | Some fn \<Rightarrow>
                    let args = argsOf fn;
                        sig = \<lparr>sigLabel = name fn @ ''('' @ str_join '', '' args @ '') -> ''
                                            @ returnType fn,
                               sigDocumentation = ''From library: '' @ libName,
                               parameters = args\<rparr>;
                        commaCount = length (filter (\<lambda>c. c = CHR '','') textUntilPos)
                    in Some \<lparr>signatures = [sig], activeSignature = 0,
                             activeParameter = min (int commaCount) (int (length args) - 1)\<rparr>)))"

section \<open>The shapes of the specification\<close>

text \<open>
  The contexts as the specification words them, on the text itself: an identifier is a
  non-empty run of word characters; \<open>callShape s\<close> says that \<open>s\<close> begins with
  identifier, dot, identifier, open parenthesis; \<open>usingShape s\<close> that \<open>s\<close> begins with
  optional whitespace, the keyword and at least one whitespace character;
  \<open>specLibraryContext\<close> that the text up to the cursor is that and nothing else.
  \<open>specArgIndex\<close> is the argument index of the specification: the commas of the text between
  the open parenthesis and the cursor, clamped to the \<open>n\<close> argument types.
\<close>

definition ident :: "string \<Rightarrow> bool" where
  "ident w = (w \<noteq> [] \<and> list_all isWord w)"

definition callShape :: "string \<Rightarrow> bool" where
  "callShape s = (\<exists>l f r. s = l @ ''.'' @ f @ ''('' @ r \<and> ident l \<and> ident f)"

definition usingShape :: "string \<Rightarrow> bool" where
  "usingShape s =
     (\<exists>ws1 ws2 rest. s = ws1 @ ''using'' @ ws2 @ rest \<and> list_all isSpace ws1 \<and>
        ws2 \<noteq> [] \<and> list_all isSpace ws2)"

definition specLibraryContext :: "string \<Rightarrow> nat \<Rightarrow> bool" where
  "specLibraryContext lineText character =
     (\<exists>ws1 ws2. take character lineText = ws1 @ ''using'' @ ws2 \<and> list_all isSpace ws1 \<and>
        ws2 \<noteq> [] \<and> list_all isSpace ws2)"

definition specArgIndex :: "string \<Rightarrow> nat \<Rightarrow> int" where
  "specArgIndex afterParen n =
     max 0 (min (int (count_list afterParen CHR '','')) (int n - 1))"

section \<open>Example inputs\<close>

definition addFn :: LibFunction where
  "addFn = \<lparr>name = ''add'', argType = ''int,int'', alias' = ''c_add'', returnType = ''int''\<rparr>"

definition concatFn :: LibFunction where
  "concatFn = \<lparr>name = ''concat'', argType = ''str,str'', alias' = ''strconcat'',
               returnType = ''str''\<rparr>"

definition cosFn :: LibFunction where
  "cosFn = \<lparr>name = ''cos'', argType = ''float'', alias' = ''c_cos'', returnType = ''float''\<rparr>"

definition mathReg :: registry where
  "mathReg = [(''mathlib'', [addFn, concatFn, cosFn])]"

definition nestReg :: registry where
  "nestReg = [(''a'', [\<lparr>name = ''f'', argType = ''int'', alias' = ''af'', returnType = ''int''\<rparr>]),
              (''b'', [\<lparr>name = ''g'', argType = ''str'', alias' = ''bg'', returnType = ''str''\<rparr>])]"

definition concatText :: string where
  "concatText = ''[functions]'' @ [CHR 0x0A] @ ''concat:str,str = strconcat > str'' @ [CHR 0x0A]"

text \<open>No folder is open.\<close>

definition noRootWorld :: world where
  "noRootWorld =
     \<lparr>workspaceFolders = None, existsSync = (\<lambda>p. False),
      readdirSync = (\<lambda>p. Inl ENOENT), readFileSync = (\<lambda>p. Inl ENOENT)\<rparr>"

text \<open>
  The folder \<^verbatim>\<open>/p\<close> whose directory \<^verbatim>\<open>/p/c_map\<close> lists the given entries. Of the
  files in it, \<^verbatim>\<open>strlib.map\<close> has one declaration, \<^verbatim>\<open>empty.map\<close> has no section and
  \<^verbatim>\<open>bad.map\<close> cannot be read.
\<close>

definition dirWorld :: "string list \<Rightarrow> world" where
  "dirWorld entries =
     \<lparr>workspaceFolders = Some [''/p''],
      existsSync = (\<lambda>p. p = ''/p/c_map''),
      readdirSync = (\<lambda>p. if p = ''/p/c_map'' then Inr entries else Inl ENOENT),
      readFileSync = (\<lambda>p. if p = ''/p/c_map/strlib.map'' then Inr concatText
                          else if p = ''/p/c_map/empty.map'' then Inr ''# nothing here''
                          else if p = ''/p/c_map/bad.map'' then Inl EACCES
                          else Inl ENOENT)\<rparr>"

section \<open>The loader: lemmas\<close>

lemma loadLoop_ignores_tail:
  "loadLoop w d (pre @ post) reg =
     (case loadLoop w d pre reg of
        (Returned, reg') \<Rightarrow> loadLoop w d post reg'
      | (Threw e, reg') \<Rightarrow> (Threw e, reg'))"
  by (induction pre arbitrary: reg) (auto split: sum.splits option.splits)

lemma loadLoop_reads_ok:
  "(\<forall>g\<in>set pre. endsWith g ''.map'' \<longrightarrow> (\<exists>c. readFileSync w (pathJoin d g) = Inr c))
   \<Longrightarrow> fst (loadLoop w d pre reg) = Returned"
  by (induction pre arbitrary: reg) (auto split: sum.splits option.splits)

lemma basename_ext: "endsWith f ext \<Longrightarrow> basename f ext @ ext = f"
  by (auto simp: basename_def endsWith_def suffix_def)

lemma basename_inj:
  "endsWith f ext \<Longrightarrow> endsWith g ext \<Longrightarrow> basename f ext = basename g ext \<Longrightarrow> f = g"
  by (metis basename_ext)

lemma loadLoop_key_origin:
  "k \<in> fst ` set (snd (loadLoop w d files reg)) \<Longrightarrow>
     k \<in> fst ` set reg \<or>
     (\<exists>f\<in>set files. k = basename f ''.map'' \<and> endsWith f ''.map'' \<and>
        (\<exists>c. readFileSync w (pathJoin d f) = Inr c \<and> parseContent c \<noteq> None))"
proof (induction files arbitrary: reg)
  case Nil
  then show ?case by simp
next
  case (Cons fl files)
  show ?case
  proof (cases "endsWith fl ''.map''")
    case False
    with Cons.prems have "k \<in> fst ` set (snd (loadLoop w d files reg))" by simp
    from Cons.IH [OF this] show ?thesis by auto
  next
    case True
    show ?thesis
    proof (cases "readFileSync w (pathJoin d fl)")
      case (Inl e)
      with True Cons.prems show ?thesis by simp
    next
      case (Inr content)
      show ?thesis
      proof (cases "parseContent content")
        case None
        with True Inr Cons.prems have "k \<in> fst ` set (snd (loadLoop w d files reg))" by simp
        from Cons.IH [OF this] show ?thesis by auto
      next
        case (Some fs)
        with True Inr Cons.prems
        have "k \<in> fst ` set (snd (loadLoop w d files
                 (AList.update (basename fl ''.map'') fs reg)))"
          by simp
        from Cons.IH [OF this]
        have "k \<in> {basename fl ''.map''} \<union> fst ` set reg \<or>
              (\<exists>f\<in>set files. k = basename f ''.map'' \<and> endsWith f ''.map'' \<and>
                (\<exists>c. readFileSync w (pathJoin d f) = Inr c \<and> parseContent c \<noteq> None))"
          by (simp only: dom_update)
        with True Inr Some show ?thesis by auto
      qed
    qed
  qed
qed

lemma loadLoop_untouched:
  "(\<forall>g\<in>set files. endsWith g ''.map'' \<longrightarrow> basename g ''.map'' \<noteq> k)
   \<Longrightarrow> map_of (snd (loadLoop w d files reg)) k = map_of reg k"
  by (induction files arbitrary: reg)
     (auto simp: update_conv' split: sum.splits option.splits)

lemma loadLoop_value:
  "loadLoop w d files reg = (Returned, reg') \<Longrightarrow> f \<in> set files \<Longrightarrow> endsWith f ''.map''
   \<Longrightarrow> readFileSync w (pathJoin d f) = Inr c \<Longrightarrow> parseContent c = Some fs
   \<Longrightarrow> map_of reg' (basename f ''.map'') = Some fs"
proof (induction files arbitrary: reg)
  case Nil
  then show ?case by simp
next
  case (Cons fl files)
  show ?case
  proof (cases "f \<in> set files")
    case True
    with Cons show ?thesis
      by (auto split: sum.splits option.splits if_splits)
  next
    case False
    with Cons.prems have eq: "fl = f" by simp
    have other: "\<forall>g\<in>set files. endsWith g ''.map'' \<longrightarrow> basename g ''.map'' \<noteq> basename f ''.map''"
      using False Cons.prems(3) basename_inj by blast
    have "loadLoop w d files (AList.update (basename f ''.map'') fs reg) = (Returned, reg')"
      using Cons.prems eq by simp
    then have "reg' = snd (loadLoop w d files (AList.update (basename f ''.map'') fs reg))"
      by simp
    then show ?thesis
      using loadLoop_untouched [OF other] by (simp add: update_conv')
  qed
qed

lemma loadLoop_absent:
  "loadLoop w d files reg = (Returned, reg') \<Longrightarrow> f \<in> set files \<Longrightarrow> endsWith f ''.map''
   \<Longrightarrow> \<exists>c. readFileSync w (pathJoin d f) = Inr c"
  by (induction files arbitrary: reg) (auto split: sum.splits option.splits if_splits)

lemma loadLoop_distinct:
  "distinct (map fst reg) \<Longrightarrow> distinct (map fst (snd (loadLoop w d files reg)))"
  by (induction files arbitrary: reg) (auto simp: distinct_update split: sum.splits option.splits)

lemma loadLoop_no_section:
  assumes "endsWith file ''.map''" and "readFileSync w (pathJoin d file) = Inr content"
    and "parseContent content = None"
  shows "basename file ''.map'' \<notin> fst ` set (snd (loadLoop w d files []))"
proof
  assume "basename file ''.map'' \<in> fst ` set (snd (loadLoop w d files []))"
  from loadLoop_key_origin [OF this]
  obtain f c where f: "basename file ''.map'' = basename f ''.map''" "endsWith f ''.map''"
      "readFileSync w (pathJoin d f) = Inr c" "parseContent c \<noteq> None"
    by auto
  from basename_inj [OF assms(1) f(2) f(1)] have "f = file" by simp
  with f assms show False by simp
qed

section \<open>The loader: reading failures\<close>

text \<open>
  C1 (as amended). When reading a descriptor file fails during \<open>loadMapFiles\<close>, nothing catches
  the failure: it leaves \<open>loadMapFiles\<close>. The registry then holds what a completed reload of
  the entries listed before the failing one gives; the failing file and the entries after it
  contribute nothing.
\<close>

theorem reload_read_failure_propagates:
  assumes "getMapDir w = Some d" and "existsSync w d"
    and "readdirSync w d = Inr (pre @ file # post)"
    and "\<forall>g\<in>set pre. endsWith g ''.map'' \<longrightarrow> (\<exists>c. readFileSync w (pathJoin d g) = Inr c)"
    and "endsWith file ''.map''"
    and "readFileSync w (pathJoin d file) = Inl e"
  shows "loadMapFiles w reg = (Threw e, snd (loadMapFiles (w\<lparr>readdirSync := \<lambda>p. Inr pre\<rparr>) reg))
         \<and> fst (loadMapFiles (w\<lparr>readdirSync := \<lambda>p. Inr pre\<rparr>) reg) = Returned"
proof -
  let ?w' = "w\<lparr>readdirSync := \<lambda>p. Inr pre\<rparr>"
  have same: "loadLoop ?w' d xs r = loadLoop w d xs r" for xs r
    by (induction xs arbitrary: r) (auto split: sum.splits option.splits)
  have dir': "getMapDir ?w' = Some d" "existsSync ?w' d"
    using assms(1,2) by (simp_all add: getMapDir_def)
  have ok: "fst (loadLoop w d pre []) = Returned"
    using assms(4) by (rule loadLoop_reads_ok)
  then obtain r where r: "loadLoop w d pre [] = (Returned, r)"
    by (cases "loadLoop w d pre []") auto
  have short: "loadMapFiles ?w' reg = (Returned, r)"
    using dir' r by (simp add: loadMapFiles_def same)
  have "loadLoop w d (pre @ file # post) [] = (Threw e, r)"
    using r assms(5,6) by (simp add: loadLoop_ignores_tail)
  then have "loadMapFiles w reg = (Threw e, r)"
    using assms(1,2,3) by (simp add: loadMapFiles_def)
  with short show ?thesis by simp
qed

theorem reload_read_failure_witness:
  "loadMapFiles (dirWorld [''strlib.map'', ''notes.txt'', ''bad.map'', ''empty.map'']) mathReg
     = (Threw EACCES, [(''strlib'', [concatFn])])"
proof -
  let ?W = "dirWorld [''strlib.map'', ''notes.txt'', ''bad.map'', ''empty.map'']"
  have a: "getMapDir ?W = Some ''/p/c_map''" by code_simp
  have b: "existsSync ?W ''/p/c_map''" by code_simp
  have c: "readdirSync ?W ''/p/c_map'' = Inr ([''strlib.map'', ''notes.txt''] @ ''bad.map'' # [''empty.map''])"
    by code_simp
  have d: "\<forall>g\<in>set [''strlib.map'', ''notes.txt'']. endsWith g ''.map'' \<longrightarrow>
             (\<exists>c. readFileSync ?W (pathJoin ''/p/c_map'' g) = Inr c)"
    by (simp add: dirWorld_def pathJoin_def endsWith_def suffix_to_prefix)
  have e: "endsWith ''bad.map'' ''.map''" by code_simp
  have f: "readFileSync ?W (pathJoin ''/p/c_map'' ''bad.map'') = Inl EACCES" by code_simp
  have r: "snd (loadMapFiles (?W\<lparr>readdirSync := \<lambda>p. Inr [''strlib.map'', ''notes.txt'']\<rparr>) mathReg)
             = [(''strlib'', [concatFn])]"
    by code_simp
  from reload_read_failure_propagates [OF a b c d e f, of mathReg] r show ?thesis by simp
qed

text \<open>
  C1 as it is worded fails: with an unreadable \<^verbatim>\<open>bad.map\<close> listed first, the reload throws
  and \<^verbatim>\<open>strlib.map\<close>, readable and with one declaration, is not installed.
\<close>

theorem reload_read_failure_counterexample:
  "loadMapFiles (dirWorld [''bad.map'', ''strlib.map'']) [] = (Threw EACCES, [])
   \<and> readFileSync (dirWorld [''bad.map'', ''strlib.map'']) ''/p/c_map/strlib.map'' = Inr concatText
   \<and> parseContent concatText = Some [concatFn]"
  by code_simp

section \<open>The loader: clearing and rebuilding\<close>

text \<open>
  C2 (as amended). \<open>loadMapFiles\<close> clears the registry before anything else: its result is the
  one a reload from the empty registry gives, whatever the registry held before, and when no
  folder is open or the descriptor directory does not exist it returns with the registry
  empty.
\<close>

theorem reload_discards_prior:
  "loadMapFiles w reg = loadMapFiles w []
   \<and> ((case getMapDir w of None \<Rightarrow> True | Some d \<Rightarrow> \<not> existsSync w d)
        \<longrightarrow> loadMapFiles w reg = (Returned, []))"
  by (simp add: loadMapFiles_def split: option.splits)

theorem reload_discards_prior_witness:
  "loadMapFiles noRootWorld mathReg = (Returned, [])"
proof -
  have h: "(case getMapDir noRootWorld of None \<Rightarrow> True | Some d \<Rightarrow> \<not> existsSync noRootWorld d)"
    by (simp add: getMapDir_def noRootWorld_def)
  from reload_discards_prior [of noRootWorld mathReg] h show ?thesis by blast
qed

text \<open>
  C2 as it is worded fails: with no folder open, a populated registry does not keep its
  contents.
\<close>

theorem reload_untouched_counterexample:
  "getMapDir noRootWorld = None \<and> mathReg \<noteq> [] \<and> snd (loadMapFiles noRootWorld mathReg) \<noteq> mathReg"
  by (simp add: getMapDir_def noRootWorld_def loadMapFiles_def mathReg_def)

text \<open>
  C6 (as amended). After a reload that returns, the keys of the registry are exactly the names
  of the \<^verbatim>\<open>.map\<close> entries of the directory whose text has a non-empty section after the
  marker; every \<^verbatim>\<open>.map\<close> entry was read, and its name is mapped to the records of its text
  when it has such a section and to nothing otherwise. So no key comes from a file that is
  not listed, whatever the registry held before.
\<close>

theorem reload_installs_sectioned_files:
  assumes "loadMapFiles w reg = (Returned, reg')" and "getMapDir w = Some d" and "existsSync w d"
    and "readdirSync w d = Inr files"
  shows "fst ` set reg' =
           {basename f ''.map'' | f. f \<in> set files \<and> endsWith f ''.map'' \<and>
              (\<exists>c. readFileSync w (pathJoin d f) = Inr c \<and> parseContent c \<noteq> None)}
         \<and> (\<forall>f\<in>set files. endsWith f ''.map'' \<longrightarrow>
               (\<exists>c. readFileSync w (pathJoin d f) = Inr c \<and>
                    map_of reg' (basename f ''.map'') = parseContent c))
         \<and> distinct (map fst reg')"
proof -
  have loop: "loadLoop w d files [] = (Returned, reg')"
    using assms by (simp add: loadMapFiles_def)
  then have reg': "reg' = snd (loadLoop w d files [])" by simp
  have vals: "\<exists>c. readFileSync w (pathJoin d f) = Inr c \<and>
                  map_of reg' (basename f ''.map'') = parseContent c"
    if f: "f \<in> set files" "endsWith f ''.map''" for f
  proof -
    from loadLoop_absent [OF loop f] obtain c where c: "readFileSync w (pathJoin d f) = Inr c" ..
    show ?thesis
    proof (cases "parseContent c")
      case None
      from loadLoop_no_section [OF f(2) c None, of files]
      have "map_of reg' (basename f ''.map'') = None"
        by (simp add: reg' map_of_eq_None_iff)
      with c None show ?thesis by simp
    next
      case (Some fs)
      from loadLoop_value [OF loop f c Some] c Some show ?thesis by simp
    qed
  qed
  have sub: "fst ` set reg' \<subseteq>
           {basename f ''.map'' | f. f \<in> set files \<and> endsWith f ''.map'' \<and>
              (\<exists>c. readFileSync w (pathJoin d f) = Inr c \<and> parseContent c \<noteq> None)}"
  proof
    fix k
    assume "k \<in> fst ` set reg'"
    then have "k \<in> fst ` set (snd (loadLoop w d files []))" by (simp add: reg')
    from loadLoop_key_origin [OF this]
    show "k \<in> {basename f ''.map'' | f. f \<in> set files \<and> endsWith f ''.map'' \<and>
              (\<exists>c. readFileSync w (pathJoin d f) = Inr c \<and> parseContent c \<noteq> None)}"
      by simp blast
  qed
  have sup: "{basename f ''.map'' | f. f \<in> set files \<and> endsWith f ''.map'' \<and>
              (\<exists>c. readFileSync w (pathJoin d f) = Inr c \<and> parseContent c \<noteq> None)}
             \<subseteq> fst ` set reg'"
  proof
    fix k
    assume "k \<in> {basename f ''.map'' | f. f \<in> set files \<and> endsWith f ''.map'' \<and>
              (\<exists>c. readFileSync w (pathJoin d f) = Inr c \<and> parseContent c \<noteq> None)}"
    then obtain f c where f: "k = basename f ''.map''" "f \<in> set files" "endsWith f ''.map''"
        "readFileSync w (pathJoin d f) = Inr c" "parseContent c \<noteq> None"
      by auto
    from vals [OF f(2,3)] f(4,5) have "map_of reg' k \<noteq> None"
      by (auto simp: f(1))
    then show "k \<in> fst ` set reg'"
      by (simp add: map_of_eq_None_iff)
  qed
  have dist: "distinct (map fst reg')"
    using loadLoop_distinct [of "[]" w d files] by (simp add: reg')
  from sub sup vals dist show ?thesis by blast
qed

theorem reload_installs_sectioned_files_witness:
  "fst ` set [(''strlib'', [concatFn])] =
     {basename f ''.map'' | f. f \<in> set [''strlib.map'', ''empty.map'', ''notes.txt''] \<and>
        endsWith f ''.map'' \<and>
        (\<exists>c. readFileSync (dirWorld [''strlib.map'', ''empty.map'', ''notes.txt''])
                (pathJoin ''/p/c_map'' f) = Inr c \<and> parseContent c \<noteq> None)}
   \<and> (\<exists>c. readFileSync (dirWorld [''strlib.map'', ''empty.map'', ''notes.txt''])
              (pathJoin ''/p/c_map'' ''empty.map'') = Inr c \<and>
            map_of [(''strlib'', [concatFn])] (basename ''empty.map'' ''.map'') = parseContent c)"
proof -
  let ?W = "dirWorld [''strlib.map'', ''empty.map'', ''notes.txt'']"
  have a: "loadMapFiles ?W mathReg = (Returned, [(''strlib'', [concatFn])])" by code_simp
  have b: "getMapDir ?W = Some ''/p/c_map''" by code_simp
  have c: "existsSync ?W ''/p/c_map''" by code_simp
  have d: "readdirSync ?W ''/p/c_map'' = Inr [''strlib.map'', ''empty.map'', ''notes.txt'']"
    by code_simp
  have e: "endsWith ''empty.map'' ''.map''" by code_simp
  from reload_installs_sectioned_files [OF a b c d] e show ?thesis by auto
qed

text \<open>
  C6 as it is worded fails: \<^verbatim>\<open>empty.map\<close> is in the directory and the reload returns, yet
  the registry has no key \<^verbatim>\<open>empty\<close>.
\<close>

theorem reload_exact_names_counterexample:
  "fst (loadMapFiles (dirWorld [''strlib.map'', ''empty.map'']) []) = Returned
   \<and> readdirSync (dirWorld [''strlib.map'', ''empty.map'']) ''/p/c_map''
         = Inr [''strlib.map'', ''empty.map'']
   \<and> endsWith ''empty.map'' ''.map''
   \<and> basename ''empty.map'' ''.map'' \<notin> fst ` set (snd (loadMapFiles (dirWorld [''strlib.map'', ''empty.map'']) []))"
  by code_simp

text \<open>
  C7. With the surroundings unchanged, a second reload right after a first gives the same
  outcome and the same registry: the same keys in the same order, with the same records in
  the same order.
\<close>

theorem reload_idempotent:
  "loadMapFiles w (snd (loadMapFiles w reg)) = loadMapFiles w reg"
  by (simp add: loadMapFiles_def)

section \<open>The descriptor text: splitting and sections\<close>

lemma str_split_nonempty: "str_split (a # sep) s \<noteq> []"
  by (induction s) (auto split: list.splits)

lemma prefix_overlap:
  assumes "a \<notin> set sep" and "prefix (a # sep) (u @ a # sep @ rest)"
  shows "u = [] \<or> prefix (a # sep) u"
proof (cases "prefix (a # sep) u")
  case True
  then show ?thesis by simp
next
  case False
  with assms(2) obtain us where us: "a # sep = u @ us" "prefix us (a # sep @ rest)"
    by (auto simp: prefix_append)
  show ?thesis
  proof (cases u)
    case Nil
    then show ?thesis by simp
  next
    case (Cons x u')
    with us(1) have sep: "sep = u' @ us" by simp
    show ?thesis
    proof (cases us)
      case Nil
      with us(1) False show ?thesis by simp
    next
      case (Cons y us')
      with us(2) have "y = a" by simp
      with Cons sep assms(1) show ?thesis by simp
    qed
  qed
qed

lemma str_split_first:
  "a \<notin> set sep \<Longrightarrow> \<not> sublist (a # sep) pre \<Longrightarrow>
     str_split (a # sep) (pre @ a # sep @ rest) = pre # str_split (a # sep) rest"
proof (induction pre)
  case Nil
  then show ?case by simp
next
  case (Cons p ps)
  have np: "\<not> prefix (a # sep) ((p # ps) @ a # sep @ rest)"
  proof
    assume "prefix (a # sep) ((p # ps) @ a # sep @ rest)"
    from prefix_overlap [OF Cons.prems(1) this] have "prefix (a # sep) (p # ps)" by simp
    then have "sublist (a # sep) (p # ps)" by (rule prefix_imp_sublist)
    with Cons.prems(2) show False by simp
  qed
  have "\<not> sublist (a # sep) ps"
    using Cons.prems(2) by (auto simp: sublist_Cons_right)
  from Cons.IH [OF Cons.prems(1) this] np show ?case by simp
qed

lemma str_split_none: "\<not> sublist (a # sep) s \<Longrightarrow> str_split (a # sep) s = [s]"
proof (induction s)
  case Nil
  then show ?case by simp
next
  case (Cons c cs)
  have np: "\<not> prefix (a # sep) (c # cs)"
    using Cons.prems prefix_imp_sublist by blast
  have "\<not> sublist (a # sep) cs"
    using Cons.prems by (auto simp: sublist_Cons_right)
  from Cons.IH [OF this] np show ?case by simp
qed

lemma marker_first: "CHR ''['' \<notin> set ''functions]''"
  by simp

lemma funcSection_absent:
  "\<not> sublist ''[functions]'' content \<Longrightarrow> funcSection content = None"
  by (simp add: funcSection_def str_split_none)

lemma funcSection_last:
  assumes "\<not> sublist ''[functions]'' pre" and "\<not> sublist ''[functions]'' rest"
  shows "funcSection (pre @ ''[functions]'' @ rest) = Some rest"
proof -
  have "str_split ''[functions]'' (pre @ CHR ''['' # ''functions]'' @ rest)
          = pre # str_split ''[functions]'' rest"
    using assms(1) by (intro str_split_first marker_first)
  moreover have "str_split ''[functions]'' rest = [rest]"
    using assms(2) by (rule str_split_none)
  ultimately show ?thesis by (simp add: funcSection_def)
qed

lemma funcSection_between:
  assumes "\<not> sublist ''[functions]'' pre" and "\<not> sublist ''[functions]'' mid"
  shows "funcSection (pre @ ''[functions]'' @ mid @ ''[functions]'' @ post) = Some mid"
proof -
  have "str_split ''[functions]'' (pre @ CHR ''['' # ''functions]'' @ (mid @ ''[functions]'' @ post))
          = pre # str_split ''[functions]'' (mid @ ''[functions]'' @ post)"
    using assms(1) by (intro str_split_first marker_first)
  moreover have "str_split ''[functions]'' (mid @ CHR ''['' # ''functions]'' @ post)
          = mid # str_split ''[functions]'' post"
    using assms(2) by (intro str_split_first marker_first)
  ultimately show ?thesis by (simp add: funcSection_def)
qed

lemma parseLines_acc: "parseLines lines acc = acc @ List.map_filter lineRecord lines"
  by (induction lines arbitrary: acc) (auto simp: List.map_filter_simps split: option.splits)

lemma lineRecord_None_iff: "lineRecord l = None \<longleftrightarrow> declMatch l = None"
  by (auto simp: lineRecord_def str_split_nonempty split: option.splits list.splits)

lemma parseLines_matching:
  "parseLines lines [] = map (the \<circ> lineRecord) (filter (\<lambda>l. declMatch l \<noteq> None) lines)"
  by (simp add: parseLines_acc List.map_filter_def lineRecord_None_iff)

lemma loadMapFiles_no_section:
  assumes "getMapDir w = Some d" and "endsWith file ''.map''"
    and "readFileSync w (pathJoin d file) = Inr content" and "parseContent content = None"
  shows "basename file ''.map'' \<notin> fst ` set (snd (loadMapFiles w reg))"
proof (cases "existsSync w d")
  case False
  with assms(1) show ?thesis by (simp add: loadMapFiles_def)
next
  case True
  show ?thesis
  proof (cases "readdirSync w d")
    case (Inl e)
    with True assms(1) show ?thesis by (simp add: loadMapFiles_def)
  next
    case (Inr files)
    with True assms(1) have "loadMapFiles w reg = loadLoop w d files []"
      by (simp add: loadMapFiles_def)
    with loadLoop_no_section [OF assms(2,3,4), of files] show ?thesis by simp
  qed
qed

lemma label_libraryItems:
  "label ` set (provideLibraryItems reg lineText character) \<subseteq> fst ` set reg"
  by (force simp: provideLibraryItems_def libraryItem_def)

text \<open>
  C10. A descriptor text in which the marker \<^verbatim>\<open>[functions]\<close> does not occur, or in which
  nothing follows its first occurrence, installs nothing; a text with one marker and some
  text after it installs the records of that text; with a second marker, only the text
  between the first and the second is scanned, and nothing is installed when that text is
  empty. A \<^verbatim>\<open>.map\<close> file whose text installs nothing has no key in the registry after
  \<open>loadMapFiles\<close>, and its name is not among the library names offered after \<^verbatim>\<open>using\<close>.
\<close>

theorem section_marker_rules:
  "(\<not> sublist ''[functions]'' content \<longrightarrow> parseContent content = None)
   \<and> (\<not> sublist ''[functions]'' pre \<longrightarrow> parseContent (pre @ ''[functions]'') = None)
   \<and> (\<not> sublist ''[functions]'' pre \<and> \<not> sublist ''[functions]'' rest \<and> rest \<noteq> [] \<longrightarrow>
        parseContent (pre @ ''[functions]'' @ rest)
          = Some (parseLines (str_split [CHR 0x0A] rest) []))
   \<and> (\<not> sublist ''[functions]'' pre \<and> \<not> sublist ''[functions]'' mid \<longrightarrow>
        parseContent (pre @ ''[functions]'' @ mid @ ''[functions]'' @ post)
          = (if mid = [] then None else Some (parseLines (str_split [CHR 0x0A] mid) [])))
   \<and> (getMapDir w = Some d \<and> endsWith file ''.map'' \<and>
        readFileSync w (pathJoin d file) = Inr content \<and> parseContent content = None \<longrightarrow>
        basename file ''.map'' \<notin> fst ` set (snd (loadMapFiles w reg)) \<and>
        basename file ''.map''
          \<notin> label ` set (provideLibraryItems (snd (loadMapFiles w reg)) lineText character))"
proof -
  have a: "parseContent content = None" if "\<not> sublist ''[functions]'' content"
    using that by (simp add: parseContent_def funcSection_absent)
  have b: "parseContent (pre @ ''[functions]'') = None" if "\<not> sublist ''[functions]'' pre"
    using funcSection_last [OF that, of "[]"] by (simp add: parseContent_def)
  have c: "parseContent (pre @ ''[functions]'' @ rest)
             = Some (parseLines (str_split [CHR 0x0A] rest) [])"
    if "\<not> sublist ''[functions]'' pre" "\<not> sublist ''[functions]'' rest" "rest \<noteq> []"
    using funcSection_last [OF that(1,2)] that(3) by (simp add: parseContent_def)
  have d: "parseContent (pre @ ''[functions]'' @ mid @ ''[functions]'' @ post)
             = (if mid = [] then None else Some (parseLines (str_split [CHR 0x0A] mid) []))"
    if "\<not> sublist ''[functions]'' pre" "\<not> sublist ''[functions]'' mid"
    using funcSection_between [OF that, of post] by (simp add: parseContent_def)
  have e: "basename file ''.map'' \<notin> fst ` set (snd (loadMapFiles w reg)) \<and>
        basename file ''.map''
          \<notin> label ` set (provideLibraryItems (snd (loadMapFiles w reg)) lineText character)"
    if "getMapDir w = Some d" "endsWith file ''.map''"
       "readFileSync w (pathJoin d file) = Inr content" "parseContent content = None"
    using loadMapFiles_no_section [OF that, of reg]
      label_libraryItems [of "snd (loadMapFiles w reg)" lineText character]
    by blast
  from a b c d e show ?thesis by blast
qed

theorem section_marker_rules_witness:
  "parseContent ''# nothing here'' = None
   \<and> parseContent (''# lib'' @ ''[functions]'') = None
   \<and> parseContent (''# lib'' @ ''[functions]'' @ '' '')
       = Some (parseLines (str_split [CHR 0x0A] '' '') [])
   \<and> parseContent (''# lib'' @ ''[functions]'' @ ''f:int = g > int'' @ ''[functions]'' @ ''h:int = k > int'')
       = Some (parseLines (str_split [CHR 0x0A] ''f:int = g > int'') [])
   \<and> basename ''empty.map'' ''.map'' \<notin> fst ` set (snd (loadMapFiles (dirWorld [''empty.map'']) mathReg))
   \<and> basename ''empty.map'' ''.map''
        \<notin> label ` set (provideLibraryItems (snd (loadMapFiles (dirWorld [''empty.map'']) mathReg)) ''using '' 6)"
proof -
  have a: "\<not> sublist ''[functions]'' ''# nothing here''" by code_simp
  have b: "\<not> sublist ''[functions]'' ''# lib''" by code_simp
  have c: "\<not> sublist ''[functions]'' '' '' \<and> '' '' \<noteq> []" by code_simp
  have d: "\<not> sublist ''[functions]'' ''f:int = g > int'' \<and> ''f:int = g > int'' \<noteq> []" by code_simp
  have e: "getMapDir (dirWorld [''empty.map'']) = Some ''/p/c_map'' \<and> endsWith ''empty.map'' ''.map'' \<and>
        readFileSync (dirWorld [''empty.map'']) (pathJoin ''/p/c_map'' ''empty.map'') = Inr ''# nothing here''"
    by code_simp
  note r1 = section_marker_rules [of "''# nothing here''" "''# lib''" "'' ''" "''f:int = g > int''"
      "''h:int = k > int''" "dirWorld [''empty.map'']" "''/p/c_map''" "''empty.map''" mathReg "''using ''" 6]
  from r1 a b c d e show ?thesis by (simp del: append.simps)
qed

text \<open>
  C8. The text of the example gives exactly one record, with the name \<^verbatim>\<open>concat\<close>, the
  argument types \<^verbatim>\<open>str,str\<close> (which \<open>argsOf\<close> splits into \<^verbatim>\<open>str\<close> and \<^verbatim>\<open>str\<close>),
  the alias \<^verbatim>\<open>strconcat\<close> and the return type \<^verbatim>\<open>str\<close>. For any lines, the records are
  those of the lines that match, one for each, in the order of the lines; a line that does
  not match gives nothing.
\<close>

theorem parse_records_in_line_order:
  "parseContent (''[functions]'' @ [CHR 0x0A] @ ''concat:str,str = strconcat > str'' @ [CHR 0x0A])
     = Some [\<lparr>name = ''concat'', argType = ''str,str'', alias' = ''strconcat'',
              returnType = ''str''\<rparr>]
   \<and> argsOf \<lparr>name = ''concat'', argType = ''str,str'', alias' = ''strconcat'',
              returnType = ''str''\<rparr> = [''str'', ''str'']
   \<and> parseLines lines [] = map (the \<circ> lineRecord) (filter (\<lambda>l. declMatch l \<noteq> None) lines)"
proof -
  have a: "parseContent (''[functions]'' @ [CHR 0x0A] @ ''concat:str,str = strconcat > str'' @ [CHR 0x0A])
     = Some [\<lparr>name = ''concat'', argType = ''str,str'', alias' = ''strconcat'',
              returnType = ''str''\<rparr>]"
    by code_simp
  have b: "argsOf \<lparr>name = ''concat'', argType = ''str,str'', alias' = ''strconcat'',
              returnType = ''str''\<rparr> = [''str'', ''str'']"
    by code_simp
  from a b parseLines_matching [of lines] show ?thesis by blast
qed

section \<open>The scanners against the shapes\<close>

text \<open>
  Each scanner accepts at a start position exactly the texts of its pattern, and the groups
  are determined by the text: an identifier that is followed by a dot or a parenthesis is
  the whole run of word characters there.
\<close>

lemma wordRun_Some_iff:
  "wordRun s = Some (w, r) \<longleftrightarrow>
     s = w @ r \<and> ident w \<and> (case r of [] \<Rightarrow> True | c # cs \<Rightarrow> \<not> isWord c)"
proof
  assume "wordRun s = Some (w, r)"
  then have w: "w = takeWhile isWord s" and r: "r = dropWhile isWord s" and ne: "w \<noteq> []"
    by (auto simp: wordRun_def split: if_splits)
  have "list_all isWord w"
    unfolding w list_all_iff by (auto dest: set_takeWhileD)
  moreover have "case r of [] \<Rightarrow> True | c # cs \<Rightarrow> \<not> isWord c"
    unfolding r by (auto simp: dropWhile_eq_Cons_conv split: list.splits)
  ultimately show "s = w @ r \<and> ident w \<and> (case r of [] \<Rightarrow> True | c # cs \<Rightarrow> \<not> isWord c)"
    using w r ne by (simp add: ident_def)
next
  assume a: "s = w @ r \<and> ident w \<and> (case r of [] \<Rightarrow> True | c # cs \<Rightarrow> \<not> isWord c)"
  then have all: "\<And>x. x \<in> set w \<Longrightarrow> isWord x" and ne: "w \<noteq> []"
    by (auto simp: ident_def list_all_iff)
  have "takeWhile isWord (w @ r) = w \<and> dropWhile isWord (w @ r) = r"
    using a all by (cases r) auto
  with a ne show "wordRun s = Some (w, r)"
    by (simp add: wordRun_def)
qed

lemma wordRun_ident:
  "ident w \<Longrightarrow> \<not> isWord c \<Longrightarrow> wordRun (w @ c # r) = Some (w, c # r)"
  by (simp add: wordRun_Some_iff)

lemma not_word_punct: "\<not> isWord CHR ''.''" "\<not> isWord CHR ''(''"
  by (simp_all add: isWord_def)

lemma lit_Some_iff: "lit c s = Some r \<longleftrightarrow> s = c # r"
  by (cases s) auto

lemma callAt_Some_iff:
  "callAt s = Some (lib, fn) \<longleftrightarrow> (\<exists>r. s = lib @ ''.'' @ fn @ ''('' @ r \<and> ident lib \<and> ident fn)"
proof
  assume "callAt s = Some (lib, fn)"
  then obtain r1 r2 r3 r4 where
      "wordRun s = Some (lib, r1)" "lit CHR ''.'' r1 = Some r2"
      "wordRun r2 = Some (fn, r3)" "lit CHR ''('' r3 = Some r4"
    by (auto simp: callAt_def split: Option.bind_splits)
  then show "\<exists>r. s = lib @ ''.'' @ fn @ ''('' @ r \<and> ident lib \<and> ident fn"
    by (auto simp: wordRun_Some_iff lit_Some_iff)
next
  assume "\<exists>r. s = lib @ ''.'' @ fn @ ''('' @ r \<and> ident lib \<and> ident fn"
  then obtain r where s: "s = lib @ CHR ''.'' # (fn @ CHR ''('' # r)" and i: "ident lib" "ident fn"
    by auto
  show "callAt s = Some (lib, fn)"
    unfolding callAt_def s
    by (simp add: wordRun_ident [OF i(1) not_word_punct(1)] wordRun_ident [OF i(2) not_word_punct(2)])
qed

lemma callShape_iff: "callShape s \<longleftrightarrow> callAt s \<noteq> None"
proof -
  have "callShape s \<longleftrightarrow> (\<exists>lib fn. callAt s = Some (lib, fn))"
    unfolding callShape_def callAt_Some_iff by blast
  then show ?thesis by auto
qed

lemma regexSearch_Some_iff:
  "regexSearch m s = Some r \<longleftrightarrow>
     (\<exists>i\<le>length s. m (drop i s) = Some r \<and> (\<forall>j<i. m (drop j s) = None))"
proof (induction s)
  case Nil
  then show ?case by simp
next
  case (Cons c cs)
  show ?case
  proof (cases "m (c # cs)")
    case (Some r')
    have "(\<exists>i\<le>length (c # cs). m (drop i (c # cs)) = Some r \<and> (\<forall>j<i. m (drop j (c # cs)) = None))
            \<longleftrightarrow> r' = r"
    proof
      assume "\<exists>i\<le>length (c # cs). m (drop i (c # cs)) = Some r \<and> (\<forall>j<i. m (drop j (c # cs)) = None)"
      then obtain i where i: "m (drop i (c # cs)) = Some r" "\<forall>j<i. m (drop j (c # cs)) = None"
        by blast
      have "i = 0"
      proof (rule ccontr)
        assume "i \<noteq> 0"
        then have "m (drop 0 (c # cs)) = None" using i(2) by blast
        with Some show False by simp
      qed
      with i(1) Some show "r' = r" by simp
    next
      assume "r' = r"
      with Some have "m (drop 0 (c # cs)) = Some r \<and> (\<forall>j<0. m (drop j (c # cs)) = None)" by simp
      then show "\<exists>i\<le>length (c # cs). m (drop i (c # cs)) = Some r \<and> (\<forall>j<i. m (drop j (c # cs)) = None)"
        by blast
    qed
    with Some show ?thesis by simp
  next
    case None
    have "(\<exists>i\<le>length (c # cs). m (drop i (c # cs)) = Some r \<and> (\<forall>j<i. m (drop j (c # cs)) = None))
            \<longleftrightarrow> (\<exists>i\<le>length cs. m (drop i cs) = Some r \<and> (\<forall>j<i. m (drop j cs) = None))"
    proof
      assume "\<exists>i\<le>length (c # cs). m (drop i (c # cs)) = Some r \<and> (\<forall>j<i. m (drop j (c # cs)) = None)"
      then obtain i where i: "i \<le> length (c # cs)" "m (drop i (c # cs)) = Some r"
          "\<forall>j<i. m (drop j (c # cs)) = None"
        by blast
      from i(2) None obtain k where k: "i = Suc k" by (cases i) auto
      have "\<forall>j<k. m (drop j cs) = None"
      proof (intro allI impI)
        fix j assume "j < k"
        then have "Suc j < i" using k by simp
        with i(3) have "m (drop (Suc j) (c # cs)) = None" by blast
        then show "m (drop j cs) = None" by simp
      qed
      with i(1,2) k show "\<exists>i\<le>length cs. m (drop i cs) = Some r \<and> (\<forall>j<i. m (drop j cs) = None)"
        by auto
    next
      assume "\<exists>i\<le>length cs. m (drop i cs) = Some r \<and> (\<forall>j<i. m (drop j cs) = None)"
      then obtain k where k: "k \<le> length cs" "m (drop k cs) = Some r" "\<forall>j<k. m (drop j cs) = None"
        by blast
      have "\<forall>j<Suc k. m (drop j (c # cs)) = None"
      proof (intro allI impI)
        fix j assume j: "j < Suc k"
        show "m (drop j (c # cs)) = None"
        proof (cases j)
          case 0
          with None show ?thesis by simp
        next
          case (Suc j')
          with j k(3) show ?thesis by simp
        qed
      qed
      with k(1,2) have "Suc k \<le> length (c # cs) \<and> m (drop (Suc k) (c # cs)) = Some r
          \<and> (\<forall>j<Suc k. m (drop j (c # cs)) = None)"
        by simp
      then show "\<exists>i\<le>length (c # cs). m (drop i (c # cs)) = Some r \<and> (\<forall>j<i. m (drop j (c # cs)) = None)"
        by blast
    qed
    with None Cons.IH show ?thesis by simp
  qed
qed

lemma commaGroups_chars:
  "commaGroups s = (g, r) \<Longrightarrow> s = g @ r \<and> (\<forall>c\<in>set g. isWord c \<or> c = CHR '','')"
proof (induction s arbitrary: g r rule: commaGroups.induct)
  case 1
  then show ?case by simp
next
  case (2 c cs)
  show ?case
  proof (cases "c = CHR '','' \<and> takeWhile isWord cs \<noteq> []")
    case False
    with "2.prems" show ?thesis by auto
  next
    case True
    obtain g' r' where gr: "commaGroups (dropWhile isWord cs) = (g', r')"
      by (cases "commaGroups (dropWhile isWord cs)")
    from "2.IH" [OF True gr]
    have ih: "dropWhile isWord cs = g' @ r'" "\<forall>c\<in>set g'. isWord c \<or> c = CHR '',''"
      by simp_all
    from "2.prems" True gr have g: "g = c # takeWhile isWord cs @ g'" and r: "r = r'"
      by simp_all
    have "c # cs = g @ r"
      using ih(1) takeWhile_dropWhile_id [of isWord cs] by (simp add: g r)
    moreover have "\<forall>x\<in>set g. isWord x \<or> x = CHR '',''"
      using ih(2) True by (auto simp: g dest: set_takeWhileD)
    ultimately show ?thesis by simp
  qed
qed

lemma declMatch_shape:
  assumes "declMatch line = Some (a, al, ret)"
  shows "\<exists>n t g. a = n @ CHR '':'' # t @ g \<and> ident n \<and> ident t \<and>
           (\<forall>c\<in>set g. isWord c \<or> c = CHR '','') \<and> ident al \<and> ident ret \<and> prefix a line"
proof -
  from assms obtain n r1 r2 t r3 g r4 r5 r6 r7 r8 where
      s: "wordRun line = Some (n, r1)" "lit CHR '':'' r1 = Some r2" "wordRun r2 = Some (t, r3)"
         "commaGroups r3 = (g, r4)" "lit CHR ''='' (spaces r4) = Some r5"
         "wordRun (spaces r5) = Some (al, r6)" "lit CHR ''>'' (spaces r6) = Some r7"
         "wordRun (spaces r7) = Some (ret, r8)" "a = n @ '':'' @ t @ g"
    by (auto simp: declMatch_def split: Option.bind_splits prod.splits)
  from commaGroups_chars [OF s(4)]
  have g: "r3 = g @ r4" "\<forall>c\<in>set g. isWord c \<or> c = CHR '',''" by simp_all
  from s(1,2,3) g(1) have "line = (n @ CHR '':'' # t @ g) @ r4"
    by (simp add: wordRun_Some_iff lit_Some_iff)
  then have "prefix (n @ CHR '':'' # t @ g) line"
    by (metis prefixI)
  with s g(2) show ?thesis
    by (auto simp: wordRun_Some_iff)
qed

lemma colon_not_word: "\<not> isWord CHR '':''"
  by (simp add: isWord_def)

lemma no_colon_sublist: "CHR '':'' \<notin> set s \<Longrightarrow> \<not> sublist '':'' s"
  by (auto simp: sublist_def)

lemma lineRecord_shape:
  assumes "lineRecord line = Some r"
  shows "ident (name r) \<and> argType r \<noteq> [] \<and> ident (alias' r) \<and> ident (returnType r)
         \<and> prefix (name r @ '':'' @ argType r) line"
proof -
  from assms obtain a al ret where d: "declMatch line = Some (a, al, ret)"
    by (auto simp: lineRecord_def split: option.splits)
  from declMatch_shape [OF d] obtain n t g where
      a: "a = n @ CHR '':'' # t @ g" "ident n" "ident t"
         "\<forall>c\<in>set g. isWord c \<or> c = CHR '',''" "ident al" "ident ret" "prefix a line"
    by blast
  have n: "CHR '':'' \<notin> set n"
    using a(2) colon_not_word by (auto simp: ident_def list_all_iff)
  have tg: "CHR '':'' \<notin> set (t @ g)"
    using a(3,4) colon_not_word by (auto simp: ident_def list_all_iff)
  have "str_split '':'' (n @ CHR '':'' # [] @ (t @ g)) = n # str_split '':'' (t @ g)"
    using n by (intro str_split_first no_colon_sublist) simp_all
  moreover have "str_split '':'' (t @ g) = [t @ g]"
    using tg by (intro str_split_none no_colon_sublist)
  ultimately have "str_split '':'' a = [n, t @ g]"
    by (simp add: a(1))
  with assms d have r: "r = \<lparr>name = n, argType = t @ g, alias' = al, returnType = ret\<rparr>"
    by (simp add: lineRecord_def)
  from a(3) have "t \<noteq> []" by (simp add: ident_def)
  with a r show ?thesis by simp
qed

lemma parsed_records_have_argument_types:
  "r \<in> set (parseLines lines []) \<Longrightarrow> argType r \<noteq> []"
  by (auto simp: parseLines_acc List.map_filter_def dest: lineRecord_shape)

section \<open>Signature help\<close>

text \<open>
  C3 (as amended). The call that \<open>provideSignatureHelp\<close> works on is the first occurrence, from
  the left, of identifier, dot, identifier, open parenthesis in the text from the line start
  up to the cursor: the library and the function reported are its two identifiers, and no
  occurrence starts before it.
\<close>

theorem callSite_first_occurrence:
  "callSite line character = Some (lib, fn) \<longleftrightarrow>
     (\<exists>pre rest. take character line = pre @ lib @ ''.'' @ fn @ ''('' @ rest \<and>
        ident lib \<and> ident fn \<and>
        (\<forall>i<length pre. \<not> callShape (drop i (take character line))))"
proof
  let ?t = "take character line"
  assume "callSite line character = Some (lib, fn)"
  then obtain i where i: "i \<le> length ?t" "callAt (drop i ?t) = Some (lib, fn)"
      "\<forall>j<i. callAt (drop j ?t) = None"
    unfolding callSite_def regexSearch_Some_iff by blast
  from i(2) obtain r where r: "drop i ?t = lib @ ''.'' @ fn @ ''('' @ r" "ident lib" "ident fn"
    unfolding callAt_Some_iff by blast
  have "?t = take i ?t @ lib @ ''.'' @ fn @ ''('' @ r"
    using r(1) append_take_drop_id [of i ?t] by simp
  moreover have "\<forall>j<length (take i ?t). \<not> callShape (drop j ?t)"
    using i(1,3) unfolding callShape_iff by simp
  ultimately show "\<exists>pre rest. ?t = pre @ lib @ ''.'' @ fn @ ''('' @ rest \<and>
        ident lib \<and> ident fn \<and> (\<forall>i<length pre. \<not> callShape (drop i ?t))"
    using r(2,3) by blast
next
  let ?t = "take character line"
  assume "\<exists>pre rest. ?t = pre @ lib @ ''.'' @ fn @ ''('' @ rest \<and>
        ident lib \<and> ident fn \<and> (\<forall>i<length pre. \<not> callShape (drop i ?t))"
  then obtain pre rest where p: "?t = pre @ lib @ ''.'' @ fn @ ''('' @ rest"
      "ident lib" "ident fn" "\<forall>i<length pre. \<not> callShape (drop i ?t)"
    by blast
  have d: "drop (length pre) ?t = lib @ ''.'' @ fn @ ''('' @ rest"
    by (subst p(1)) simp
  have "callAt (drop (length pre) ?t) = Some (lib, fn)"
    unfolding callAt_Some_iff d using p(2,3) by blast
  moreover have "\<forall>j<length pre. callAt (drop j ?t) = None"
    using p(4) unfolding callShape_iff by blast
  moreover have "length pre \<le> length ?t"
    by (subst p(1)) simp
  ultimately show "callSite line character = Some (lib, fn)"
    unfolding callSite_def regexSearch_Some_iff by blast
qed

theorem callSite_first_occurrence_witness:
  "callSite ''x.y.f(1, z.g(2)'' 13 = Some (''y'', ''f'')"
proof -
  have t: "take 13 ''x.y.f(1, z.g(2)'' = ''x.'' @ ''y'' @ ''.'' @ ''f'' @ ''('' @ ''1, z.g(''"
    by simp
  have i: "ident ''y''" "ident ''f''"
    by (simp_all add: ident_def isWord_def)
  have "callAt ''x.y.f(1, z.g('' = None" "callAt ''.y.f(1, z.g('' = None"
    by code_simp+
  then have n: "\<forall>i<length ''x.''. \<not> callShape (drop i (take 13 ''x.y.f(1, z.g(2)''))"
    by (simp add: callShape_iff All_less_Suc)
  from callSite_first_occurrence [of "''x.y.f(1, z.g(2)''" 13 "''y''" "''f''"] t i n
  show ?thesis by blast
qed

text \<open>
  C3 as it is worded fails: in \<^verbatim>\<open>a.f(b.g(\<close> with the cursor at the end, the call found is
  that of function \<^verbatim>\<open>f\<close> of library \<^verbatim>\<open>a\<close>, the first one, and not that of \<^verbatim>\<open>g\<close> of
  \<^verbatim>\<open>b\<close>.
\<close>

theorem callSite_last_occurrence_counterexample:
  "callSite ''a.f(b.g('' 8 = Some (''a'', ''f'')
   \<and> callSite ''a.f(b.g('' 8 \<noteq> Some (''b'', ''g'')
   \<and> map_option (\<lambda>h. map sigDocumentation (signatures h))
        (provideSignatureHelp nestReg ''a.f(b.g('' 8) = Some [''From library: a'']"
  by code_simp

lemma argsOf_nonempty: "argType fn \<noteq> [] \<Longrightarrow> argsOf fn \<noteq> []"
  by (simp add: argsOf_def str_split_nonempty)

text \<open>
  C4 (as amended). For a call of a function with at least one argument type (every record the
  loader builds has one, by \<open>parsed_records_have_argument_types\<close>), the active parameter is the
  number of commas in the whole text from the line start up to the cursor, those before the
  open parenthesis included, or the number of argument types less one when that is smaller;
  so it lies between 0 and the number of argument types less one. For \<^verbatim>\<open>mathlib.add(1,\<close>
  with the cursor after the comma and \<^verbatim>\<open>add(int,int) -> int\<close> it is 1.
\<close>

theorem active_parameter_counts_line_commas:
  assumes "callSite line character = Some (libName, funcName)"
    and "map_of reg libName = Some funcs"
    and "find (\<lambda>f. name f = funcName) funcs = Some fn"
    and "argType fn \<noteq> []"
  shows "(\<exists>help. provideSignatureHelp reg line character = Some help
            \<and> activeParameter help
                = min (int (length (filter (\<lambda>c. c = CHR '','') (take character line))))
                      (int (length (argsOf fn)) - 1)
            \<and> 0 \<le> activeParameter help \<and> activeParameter help \<le> int (length (argsOf fn)) - 1
            \<and> map parameters (signatures help) = [argsOf fn])
         \<and> map_option activeParameter (provideSignatureHelp mathReg ''mathlib.add(1,'' 14) = Some 1"
proof -
  have ex: "map_option activeParameter (provideSignatureHelp mathReg ''mathlib.add(1,'' 14) = Some 1"
    by code_simp
  have ne: "argsOf fn \<noteq> []"
    using assms(4) by (rule argsOf_nonempty)
  from assms(1,2,3) ex ne show ?thesis
    by (simp add: provideSignatureHelp_def Let_def)
qed

theorem active_parameter_witness:
  "\<exists>help. provideSignatureHelp mathReg ''x = mathlib.add(1, 2, 3)'' 22 = Some help
           \<and> activeParameter help = 1"
proof -
  have a: "callSite ''x = mathlib.add(1, 2, 3)'' 22 = Some (''mathlib'', ''add'')" by code_simp
  have b: "map_of mathReg ''mathlib'' = Some [addFn, concatFn, cosFn]" by (simp add: mathReg_def)
  have c: "find (\<lambda>f. name f = ''add'') [addFn, concatFn, cosFn] = Some addFn"
    by (simp add: addFn_def)
  have d: "argType addFn \<noteq> []" by (simp add: addFn_def)
  have e: "min (int (length (filter (\<lambda>c. c = CHR '','') (take 22 ''x = mathlib.add(1, 2, 3)''))))
                      (int (length (argsOf addFn)) - 1) = 1"
    by code_simp
  from active_parameter_counts_line_commas [OF a b c d] e show ?thesis by auto
qed

text \<open>
  C4 as it is worded fails: in \<^verbatim>\<open>foo(1, mathlib.add(\<close> with the cursor at the end, no comma
  stands between the open parenthesis of the call found and the cursor, so the index of the
  specification is 0, but the comma before the call is counted and the active parameter
  is 1.
\<close>

theorem active_parameter_counterexample:
  "callSite ''foo(1, mathlib.add('' 19 = Some (''mathlib'', ''add'')
   \<and> take 19 ''foo(1, mathlib.add('' = ''foo(1, '' @ ''mathlib'' @ ''.'' @ ''add'' @ ''('' @ []
   \<and> map_option activeParameter (provideSignatureHelp mathReg ''foo(1, mathlib.add('' 19) = Some 1
   \<and> specArgIndex [] (length (argsOf addFn)) = 0"
  by code_simp

section \<open>Completion\<close>

lemma not_space_u: "\<not> isSpace CHR ''u''"
  by (simp add: isSpace_def)

lemma usingMatch_iff: "usingMatch lineText \<longleftrightarrow> usingShape lineText"
proof
  assume m: "usingMatch lineText"
  then obtain r where r: "dropWhile isSpace lineText = ''using'' @ r"
    by (auto simp: usingMatch_def spaces_def prefix_def)
  with m obtain c cs where c: "r = c # cs" "isSpace c"
    by (auto simp: usingMatch_def spaces_def split: list.splits)
  have "lineText = takeWhile isSpace lineText @ ''using'' @ [c] @ cs"
    using takeWhile_dropWhile_id [of isSpace lineText] r c(1) by simp
  moreover have "list_all isSpace (takeWhile isSpace lineText)"
    unfolding list_all_iff by (auto dest: set_takeWhileD)
  ultimately show "usingShape lineText"
    unfolding usingShape_def using c(2) by (intro exI [of _ "takeWhile isSpace lineText"] exI [of _ "[c]"] exI [of _ cs]) simp
next
  assume "usingShape lineText"
  then obtain ws1 ws2 rest where s: "lineText = ws1 @ ''using'' @ ws2 @ rest"
      "list_all isSpace ws1" "ws2 \<noteq> []" "list_all isSpace ws2"
    unfolding usingShape_def by blast
  have "dropWhile isSpace lineText = ''using'' @ ws2 @ rest"
    unfolding s(1) using s(2) not_space_u by (simp add: list_all_iff)
  moreover from s(3,4) obtain c cs where "ws2 = c # cs" "isSpace c"
    by (cases ws2) auto
  ultimately show "usingMatch lineText"
    by (simp add: usingMatch_def spaces_def)
qed

text \<open>
  C5 (as amended). Library names are offered exactly when the line, as a whole, begins with
  optional whitespace, the keyword \<^verbatim>\<open>using\<close> and at least one whitespace character, whatever
  follows and wherever the cursor is; then a name is offered for every key of the registry,
  in the order of the keys, and otherwise nothing is offered.
\<close>

theorem library_completion_on_using_line:
  "provideLibraryItems reg lineText character =
     (if usingShape lineText then map libraryItem (map fst reg) else [])"
  by (simp add: provideLibraryItems_def usingMatch_iff)

text \<open>
  C5 as it is worded fails: in \<^verbatim>\<open>using ma\<close> with the cursor at the end, the text before the
  cursor has more than the keyword and whitespace, yet the library name is offered.
\<close>

theorem library_completion_counterexample:
  "\<not> specLibraryContext ''using ma'' 8
   \<and> provideLibraryItems mathReg ''using ma'' 8 = [libraryItem ''mathlib'']"
proof -
  have "\<not> specLibraryContext ''using ma'' 8"
  proof
    assume "specLibraryContext ''using ma'' 8"
    then obtain ws1 ws2 where w: "''using ma'' = ws1 @ ''using'' @ ws2" "ws2 \<noteq> []"
        "list_all isSpace ws2"
      unfolding specLibraryContext_def by auto
    from w(2) have "last (ws1 @ ''using'' @ ws2) = last ws2" by simp
    with w(1) have "last ws2 = CHR ''a''" by (metis last.simps last_appendR list.distinct(1) last_ConsR)
    moreover from w(2,3) have "isSpace (last ws2)" by (simp add: list_all_iff)
    ultimately show False by (simp add: isSpace_def)
  qed
  moreover have "provideLibraryItems mathReg ''using ma'' 8 = [libraryItem ''mathlib'']"
    by code_simp
  ultimately show ?thesis by simp
qed

lemma memberAt_Some_iff:
  "memberAt s = Some (l, p) \<longleftrightarrow> s = l @ ''.'' @ p \<and> ident l \<and> list_all isWord p"
proof
  assume "memberAt s = Some (l, p)"
  then obtain r1 r2 where r: "wordRun s = Some (l, r1)" "lit CHR ''.'' r1 = Some r2"
      "dropWhile isWord r2 = []" "p = takeWhile isWord r2"
    by (auto simp: memberAt_def split: Option.bind_splits if_splits)
  from r(3) have all: "list_all isWord r2" by (simp add: list_all_iff)
  then have "takeWhile isWord r2 = r2" by (simp add: list_all_iff)
  with r all show "s = l @ ''.'' @ p \<and> ident l \<and> list_all isWord p"
    by (auto simp: wordRun_Some_iff lit_Some_iff)
next
  assume a: "s = l @ ''.'' @ p \<and> ident l \<and> list_all isWord p"
  then have s: "s = l @ CHR ''.'' # p" and i: "ident l" and p: "\<forall>x\<in>set p. isWord x"
    by (simp_all add: list_all_iff)
  show "memberAt s = Some (l, p)"
    unfolding memberAt_def s using p
    by (simp add: wordRun_ident [OF i not_word_punct(1)])
qed

lemma last_dot_unique:
  assumes "list_all isWord p" and "list_all isWord p'"
    and "l @ CHR ''.'' # p = l' @ CHR ''.'' # p'"
  shows "l = l' \<and> p = p'"
proof -
  have tw: "takeWhile isWord (rev (k @ CHR ''.'' # q)) = rev q" if "list_all isWord q" for k q
    using that not_word_punct(1) by (simp add: list_all_iff takeWhile_tail)
  from assms(3) have "takeWhile isWord (rev (l @ CHR ''.'' # p))
                        = takeWhile isWord (rev (l' @ CHR ''.'' # p'))"
    by simp
  then have "rev p = rev p'"
    by (simp only: tw [OF assms(1)] tw [OF assms(2)])
  then have "p = p'" by simp
  with assms(3) show ?thesis by simp
qed

lemma member_search:
  assumes "ident lib" and "list_all isWord pfx" and "pre = [] \<or> \<not> isWord (last pre)"
  shows "regexSearch memberAt (pre @ lib @ ''.'' @ pfx) = Some (lib, pfx)"
proof -
  let ?s = "pre @ lib @ ''.'' @ pfx"
  have here: "memberAt (drop (length pre) ?s) = Some (lib, pfx)"
    using assms(1,2) by (simp add: memberAt_Some_iff)
  have before: "memberAt (drop j ?s) = None" if j: "j < length pre" for j
  proof (rule ccontr)
    assume "memberAt (drop j ?s) \<noteq> None"
    then obtain l p where lp: "memberAt (drop j ?s) = Some (l, p)" by auto
    then have eq: "drop j ?s = l @ CHR ''.'' # p" and l: "ident l" and p: "list_all isWord p"
      by (simp_all add: memberAt_Some_iff)
    from j have d: "drop j ?s = (drop j pre @ lib) @ CHR ''.'' # pfx" by simp
    from last_dot_unique [OF p assms(2)] eq d have "l = drop j pre @ lib"
      by metis
    with l have "list_all isWord (drop j pre)" by (simp add: ident_def)
    moreover from j have "drop j pre \<noteq> []" "last (drop j pre) = last pre" by simp_all
    ultimately have "isWord (last pre)"
      by (metis last_in_set list_all_iff)
    moreover from j have "pre \<noteq> []" by auto
    ultimately show False using assms(3) by simp
  qed
  have "length pre \<le> length ?s" by simp
  with here before show ?thesis
    unfolding regexSearch_Some_iff by blast
qed

text \<open>
  C9. For a line that ends with an identifier, a dot and a run of word characters (which may be
  empty), the identifier not being the tail of a longer one, the functions offered are those
  of the library of that name whose name has the run as a prefix, compared character by
  character, in the order of the registry; none is offered when the registry has no such
  library.
\<close>

theorem member_completion_filters_by_prefix:
  assumes "ident lib" and "list_all isWord pfx" and "pre = [] \<or> \<not> isWord (last pre)"
  shows "provideFunctionItems reg (pre @ lib @ ''.'' @ pfx) character =
           (case map_of reg lib of
              None \<Rightarrow> []
            | Some funcs \<Rightarrow> map (functionItem lib) (filter (\<lambda>fn. prefix pfx (name fn)) funcs))"
  using member_search [OF assms]
  by (simp add: provideFunctionItems_def startsWith_def split: option.splits)

theorem member_completion_witness:
  "provideFunctionItems mathReg (''x = '' @ ''mathlib'' @ ''.'' @ ''co'') 14
     = [functionItem ''mathlib'' concatFn, functionItem ''mathlib'' cosFn]
   \<and> provideFunctionItems mathReg (''x = '' @ ''mathlib'' @ ''.'' @ ''Co'') 14 = []
   \<and> provideFunctionItems mathReg (''x = '' @ ''strlib'' @ ''.'' @ ''co'') 13 = []"
proof -
  have i: "ident ''mathlib''" "ident ''strlib''" "list_all isWord ''co''" "list_all isWord ''Co''"
    by (simp_all add: ident_def isWord_def)
  have p: "''x = '' = [] \<or> \<not> isWord (last ''x = '')"
    by (simp add: isWord_def)
  have m: "map_of mathReg ''mathlib'' = Some [addFn, concatFn, cosFn]"
      "map_of mathReg ''strlib'' = None"
    by (simp_all add: mathReg_def)
  have f: "filter (\<lambda>fn. prefix ''co'' (name fn)) [addFn, concatFn, cosFn] = [concatFn, cosFn]"
      "filter (\<lambda>fn. prefix ''Co'' (name fn)) [addFn, concatFn, cosFn] = []"
    by (simp_all add: addFn_def concatFn_def cosFn_def)
  from member_completion_filters_by_prefix [OF i(1) i(3) p, of mathReg 14]
       member_completion_filters_by_prefix [OF i(1) i(4) p, of mathReg 14]
       member_completion_filters_by_prefix [OF i(2) i(3) p, of mathReg 13]
  show ?thesis by (simp only: m f option.case list.map)
qed

end
